theory Spec2Isabelle
  imports Main
begin

section \<open>Strings of the line classifier\<close>

text \<open>
  The classifier of \<^verbatim>\<open>src/common/Utils.ts\<close> works on JavaScript strings. A line is
  modelled as a \<^typ>\<open>string\<close>, each \<^typ>\<open>char\<close> read as one UTF-16 code unit below 256
  (ASCII and Latin-1). On that range the character classes of the regular expressions and
  of \<^verbatim>\<open>trim\<close> and \<^verbatim>\<open>toLowerCase\<close> are the ones written out below.
\<close>

definition isWhiteSpace :: "char \<Rightarrow> bool" where
  \<comment> \<open>\<^verbatim>\<open>\s\<close>, and what \<^verbatim>\<open>trim\<close> removes: TAB, LF, VT, FF, CR, SPACE, NBSP\<close>
  "isWhiteSpace c =
     (c \<in> set [CHR 0x09, CHR 0x0A, CHR 0x0B, CHR 0x0C, CHR 0x0D, CHR 0x20, CHR 0xA0])"

definition isLineTerminator :: "char \<Rightarrow> bool" where
  \<comment> \<open>what \<^verbatim>\<open>.\<close> does not match\<close>
  "isLineTerminator c = (c \<in> set [CHR 0x0A, CHR 0x0D])"

definition isWordChar :: "char \<Rightarrow> bool" where
  \<comment> \<open>\<^verbatim>\<open>\w\<close>\<close>
  "isWordChar c =
     (c \<in> set (''abcdefghijklmnopqrstuvwxyz'' @ ''ABCDEFGHIJKLMNOPQRSTUVWXYZ'' @ ''0123456789_''))"

definition toLowerCaseChar :: "char \<Rightarrow> char" where
  "toLowerCaseChar c =
     (let n = (of_char c :: nat)
      in if (65 \<le> n \<and> n \<le> 90) \<or> (192 \<le> n \<and> n \<le> 222 \<and> n \<noteq> 215)
         then char_of (n + 32) else c)"

definition toLowerCase :: "string \<Rightarrow> string" where
  "toLowerCase s = map toLowerCaseChar s"

definition trim :: "string \<Rightarrow> string" where
  "trim s = rev (dropWhile isWhiteSpace (rev (dropWhile isWhiteSpace s)))"

definition startsWith :: "string \<Rightarrow> string \<Rightarrow> bool" where
  \<comment> \<open>\<^verbatim>\<open>s.startsWith(p)\<close>\<close>
  "startsWith s p = (take (length p) s = p)"

fun includesStr :: "string \<Rightarrow> string \<Rightarrow> bool" where
  \<comment> \<open>\<^verbatim>\<open>s.includes(sub)\<close>\<close>
  "includesStr [] sub = (sub = [])"
| "includesStr (c # cs) sub = (startsWith (c # cs) sub \<or> includesStr cs sub)"

section \<open>Annotation stripper\<close>

text \<open>
  \<^verbatim>\<open>line.trim().replace(/@\w+\s*(\([\w=.*''/\s]+\))?/, '')\<close> removes the leftmost match.
  A match starts at the first \<^verbatim>\<open>@\<close> that is followed by a word character. The greedy
  \<^verbatim>\<open>\w+\<close> and \<^verbatim>\<open>\s*\<close> take the whole run of word characters and of white space;
  giving characters back never helps, because what follows has to be \<^verbatim>\<open>(\<close>. The optional
  group takes \<^verbatim>\<open>(\<close>, the whole non-empty run of argument characters and \<^verbatim>\<open>)\<close>
  when they are there, and nothing otherwise.
\<close>

definition isArgChar :: "char \<Rightarrow> bool" where
  \<comment> \<open>the class \<^verbatim>\<open>[\w=.*''/\s]\<close>\<close>
  "isArgChar c = (isWordChar c \<or> c \<in> set ''=.*/'' \<or> c = CHR 0x27 \<or> isWhiteSpace c)"

definition afterAnnotation :: "string \<Rightarrow> string" where
  \<comment> \<open>what is left behind a match whose \<^verbatim>\<open>@\<close> has just been read\<close>
  "afterAnnotation cs =
     (let r = dropWhile isWhiteSpace (dropWhile isWordChar cs)
      in case r of
           [] \<Rightarrow> r
         | p # as \<Rightarrow>
             (if p = CHR ''('' \<and> takeWhile isArgChar as \<noteq> [] \<and>
                 startsWith (dropWhile isArgChar as) '')''
              then tl (dropWhile isArgChar as) else r))"

fun replaceAnnotation :: "string \<Rightarrow> string" where
  "replaceAnnotation [] = []"
| "replaceAnnotation (c # cs) =
     (if c = CHR ''@'' \<and> cs \<noteq> [] \<and> isWordChar (hd cs)
      then afterAnnotation cs else c # replaceAnnotation cs)"

definition leadingAt :: "string \<Rightarrow> bool" where
  \<comment> \<open>the loop condition \<^verbatim>\<open>line && line.trim().startsWith('@')\<close>\<close>
  "leadingAt line = (line \<noteq> [] \<and> startsWith (trim line) ''@'')"

definition stripStep :: "string \<Rightarrow> string" where
  \<comment> \<open>the assignment in the loop body\<close>
  "stripStep line = replaceAnnotation (trim line)"

function stripLoop :: "nat \<Rightarrow> string \<Rightarrow> string" where
  "stripLoop i line =
     (if leadingAt line
      then (if i \<ge> 100 then stripStep line else stripLoop (i + 1) (stripStep line))
      else line)"
  by pat_completeness auto
termination
  by (relation "measure (\<lambda>(i, line). 100 - i)") auto

declare stripLoop.simps [simp del]

definition stripAnnotations :: "string \<Rightarrow> string" where
  "stripAnnotations line = stripLoop 0 line"

text \<open>
  The same loop with nothing assumed about its termination: \<open>None\<close> stands for a loop
  that never leaves. It returns the two variables of the loop, the line and the counter
  \<^verbatim>\<open>i\<close>, as the loop leaves them.
\<close>

partial_function (option) stripWhile :: "nat \<Rightarrow> string \<Rightarrow> (string \<times> nat) option" where
  "stripWhile i line =
     (if leadingAt line
      then (if i \<ge> 100 then Some (stripStep line, i) else stripWhile (i + 1) (stripStep line))
      else Some (line, i))"

declare stripWhile.simps [code]

section \<open>Structural matcher\<close>

text \<open>
  \<^verbatim>\<open>re.test(s)\<close> tries every start position from left to right. A matcher sees the
  character before the position (for \<^verbatim>\<open>\b\<close>) and the rest of the string.
\<close>

fun regexSearch :: "(char option \<Rightarrow> string \<Rightarrow> bool) \<Rightarrow> char option \<Rightarrow> string \<Rightarrow> bool" where
  "regexSearch m prev [] = m prev []"
| "regexSearch m prev (c # cs) = (m prev (c # cs) \<or> regexSearch m (Some c) cs)"

definition wordBoundary :: "char option \<Rightarrow> string \<Rightarrow> bool" where
  \<comment> \<open>\<^verbatim>\<open>\b\<close>: exactly one of the two neighbours is a word character\<close>
  "wordBoundary prev rest =
     ((case prev of None \<Rightarrow> False | Some c \<Rightarrow> isWordChar c) \<noteq>
      (case rest of [] \<Rightarrow> False | c # _ \<Rightarrow> isWordChar c))"

definition classAt :: "char option \<Rightarrow> string \<Rightarrow> bool" where
  \<comment> \<open>\<^verbatim>\<open>\bclass\b\<close> at a position; the \<^verbatim>\<open>.*\<close> on both sides of
      \<^verbatim>\<open>/.*\bclass\b.*/\<close> may match nothing, so the search over the start positions covers it\<close>
  "classAt prev rest =
     (wordBoundary prev rest \<and> startsWith rest ''class'' \<and>
      wordBoundary (Some (CHR ''s'')) (drop 5 rest))"

definition interfaceTail :: "char option \<Rightarrow> string \<Rightarrow> bool" where
  \<comment> \<open>\<^verbatim>\<open>\binterface\s\<close> at a position\<close>
  "interfaceTail prev rest =
     (wordBoundary prev rest \<and> startsWith rest ''interface'' \<and>
      (case drop 9 rest of [] \<Rightarrow> False | c # _ \<Rightarrow> isWhiteSpace c))"

definition interfaceAt :: "char option \<Rightarrow> string \<Rightarrow> bool" where
  \<comment> \<open>\<^verbatim>\<open>/\s?\binterface\s/i\<close> at a position: the optional white space is tried first, then
      left out. The line tested is lowercased already, so the flag \<^verbatim>\<open>i\<close> changes nothing.\<close>
  "interfaceAt prev rest =
     (case rest of
        [] \<Rightarrow> interfaceTail prev rest
      | c # cs \<Rightarrow> (isWhiteSpace c \<and> interfaceTail (Some c) cs) \<or> interfaceTail prev rest)"

definition isClassOrInterface :: "string \<Rightarrow> bool" where
  "isClassOrInterface line =
     (if regexSearch classAt None (toLowerCase line) \<or>
         regexSearch interfaceAt None (toLowerCase line)
      then True else False)"





text \<open>
  The words of the specification, to compare \<open>isClassOrInterface\<close> with: a line contains
  the token \<open>w\<close> at word boundaries when \<open>w\<close> occurs in it with no word character right
  before and none right after.
\<close>

definition specContainsWord :: "string \<Rightarrow> string \<Rightarrow> bool" where
  "specContainsWord w s =
     (\<exists>pre post. s = pre @ w @ post \<and>
        (pre = [] \<or> \<not> isWordChar (last pre)) \<and> (post = [] \<or> \<not> isWordChar (hd post)))"

section \<open>Scope resolver\<close>

definition PRIVATE :: string where
  "PRIVATE = ''private''"

definition TEST_METHOD :: string where
  "TEST_METHOD = ''testmethod''"

definition COLLECTIONS :: "string list" where
  "COLLECTIONS = [''list'', ''set'', ''map'']"

definition KEYWORDS :: "string list" where
  "KEYWORDS =
     [''abstract'', ''final'', ''virtual'', ''override'', ''void'', ''blob'', ''boolean'',
      ''date'', ''datetime'', ''decimal'', ''double'', ''id'', ''integer'', ''long'',
      ''object'', ''string'', ''time'']"

definition normalise :: "string \<Rightarrow> string" where
  \<comment> \<open>\<^verbatim>\<open>this.stripAnnotations(line).toLowerCase().trim()\<close>\<close>
  "normalise line = trim (toLowerCase (stripAnnotations line))"

definition keywordMatches :: "string \<Rightarrow> string \<Rightarrow> bool" where
  \<comment> \<open>the two tests of the loop body, for the lowercased scope\<close>
  "keywordMatches scope line =
     (startsWith line (scope @ '' '') \<or>
      (scope = TEST_METHOD \<and> startsWith line (''static '' @ TEST_METHOD @ '' '')))"

text \<open>
  The loop over \<^verbatim>\<open>ApexDoc.config.scope\<close> assigns the normalised line to \<^verbatim>\<open>line\<close> in
  every round, and the code after the loop reads that variable: the loop returns the
  scope found, if any, together with the line as it leaves it.
\<close>

fun scopeLoop :: "string list \<Rightarrow> string \<Rightarrow> string option \<times> string" where
  "scopeLoop [] line = (None, line)"
| "scopeLoop (scope # rest) line =
     (let line' = normalise line; scope' = toLowerCase scope
      in if startsWith line' (scope' @ '' '') then (Some scope', line')
         else if scope' = TEST_METHOD \<and> startsWith line' (''static '' @ TEST_METHOD @ '' '')
         then (Some scope', line')
         else scopeLoop rest line')"

fun genericScan :: "string \<Rightarrow> bool" where
  \<comment> \<open>the rest of \<^verbatim>\<open>.+>\s\<close> once one character has been taken by \<^verbatim>\<open>.+\<close>\<close>
  "genericScan [] = False"
| "genericScan (c # cs) =
     ((c = CHR ''>'' \<and> cs \<noteq> [] \<and> isWhiteSpace (hd cs)) \<or>
      (\<not> isLineTerminator c \<and> genericScan cs))"

definition collectionRegex :: "string \<Rightarrow> string \<Rightarrow> bool" where
  \<comment> \<open>\<^verbatim>\<open>new RegExp('^' + collection + '<.+>\\s.*').test(line)\<close>\<close>
  "collectionRegex collection line =
     (startsWith line (collection @ ''<'') \<and>
      (case drop (length collection + 1) line of
         [] \<Rightarrow> False
       | c # cs \<Rightarrow> \<not> isLineTerminator c \<and> genericScan cs))"

definition implicitPrivate :: "string \<Rightarrow> bool" where
  \<comment> \<open>the three heuristics behind \<^verbatim>\<open>ApexDoc.config.scope.includes(this.PRIVATE)\<close>\<close>
  "implicitPrivate line =
     (if startsWith line ''static '' \<and> \<not> includesStr line ('' '' @ TEST_METHOD @ '' '') then True
      else if list_ex (\<lambda>keyword. startsWith line (keyword @ '' '') \<and> includesStr line ''('') KEYWORDS
      then True
      else list_ex (\<lambda>collection. collectionRegex collection line \<and> includesStr line ''('')
             COLLECTIONS)"

definition getScope :: "string list \<Rightarrow> string \<Rightarrow> string option" where
  \<comment> \<open>the first argument is \<^verbatim>\<open>ApexDoc.config.scope\<close>; \<open>None\<close> is \<^verbatim>\<open>undefined\<close>\<close>
  "getScope config line =
     (case scopeLoop config line of
        (Some scope, _) \<Rightarrow> Some scope
      | (None, line') \<Rightarrow>
          (if PRIVATE \<in> set config \<and> implicitPrivate line' then Some PRIVATE else None))"

section \<open>Skip decision\<close>

text \<open>
  Modelled from the spec: the constants \<^verbatim>\<open>ApexDoc.ENUM\<close>, \<^verbatim>\<open>ApexDoc.CLASS\<close> and
  \<^verbatim>\<open>ApexDoc.INTERFACE\<close> of the engine, which the spec calls the enum, class and interface
  declaration keywords.
\<close>

definition ENUM :: string where
  "ENUM = ''enum''"

definition CLASS :: string where
  "CLASS = ''class''"

definition INTERFACE :: string where
  "INTERFACE = ''interface''"

record ClassModel =
  name :: string
  isInterface :: bool

fun splitDot :: "string \<Rightarrow> string \<Rightarrow> string list" where
  \<comment> \<open>\<^verbatim>\<open>s.split('.')\<close>, the part being read carried along\<close>
  "splitDot acc [] = [acc]"
| "splitDot acc (c # cs) = (if c = CHR ''.'' then acc # splitDot [] cs else splitDot (acc @ [c]) cs)"

definition lastOf :: "string list \<Rightarrow> string" where
  \<comment> \<open>\<^verbatim>\<open>last(arr)\<close>; \<^verbatim>\<open>arr[0]\<close> of an empty array is \<^verbatim>\<open>undefined\<close>, which the
      concatenation into the pattern would spell out\<close>
  "lastOf arr =
     (if length arr > 1 then arr ! (length arr - 1)
      else (case arr of [] \<Rightarrow> ''undefined'' | x # _ \<Rightarrow> x))"

text \<open>
  Line 83 builds its pattern from the class name at run time, so what it matches is up to
  the regular expression engine of the runtime: the class name is read as a pattern, and
  \<^verbatim>\<open>new RegExp\<close> throws a \<^verbatim>\<open>SyntaxError\<close> when it is not one. The engine is a parameter
  of the skip decision: \<open>regExpTest pattern line\<close> stands for
  \<^verbatim>\<open>new RegExp(pattern).test(line)\<close>, a boolean or the error thrown.
\<close>

datatype error = SyntaxError

type_synonym regExpTest = "string \<Rightarrow> string \<Rightarrow> error + bool"

definition constructorPattern :: "string \<Rightarrow> string" where
  \<comment> \<open>\<^verbatim>\<open>'\\b' + className + '\\s*\\('\<close>; \<open>CHR 0x5C\<close> is the backslash\<close>
  "constructorPattern className =
     [CHR 0x5C, CHR ''b''] @ className @ [CHR 0x5C, CHR ''s'', CHR ''*'', CHR 0x5C, CHR ''('']"

definition shouldSkipLine ::
    "regExpTest \<Rightarrow> string list \<Rightarrow> string \<Rightarrow> ClassModel option \<Rightarrow> error + bool" where
  \<comment> \<open>the second argument is \<^verbatim>\<open>ApexDoc.config.scope\<close>, read by \<^verbatim>\<open>getScope\<close>; an absent or
      empty scope is falsy. The conjunction is evaluated from left to right: the pattern is
      built only when the four tests before it hold and a class context is given.\<close>
  "shouldSkipLine regExpTest config line cModel =
     (let classNameParts = (case cModel of None \<Rightarrow> [[]] | Some m \<Rightarrow> splitDot [] (name m));
          className = lastOf classNameParts
      in if (getScope config line = None \<or> getScope config line = Some []) \<and>
            \<not> startsWith (toLowerCase line) (ENUM @ '' '') \<and>
            \<not> startsWith (toLowerCase line) (CLASS @ '' '') \<and>
            \<not> startsWith (toLowerCase line) (INTERFACE @ '' '')
         then (case cModel of
                 None \<Rightarrow> Inr True
               | Some m \<Rightarrow>
                   (case regExpTest (constructorPattern className) line of
                      Inl e \<Rightarrow> Inl e
                    | Inr found \<Rightarrow>
                        Inr (\<not> found \<and> \<not> (isInterface m \<and> includesStr line ''(''))))
         else Inr False)"

text \<open>
  For a class name made of word characters, as an identifier is, every character of the
  name stands for itself in the pattern: \<open>identifierTest\<close> is the engine on the patterns
  built from such names. On any other pattern it is not meant to be the engine of the
  runtime, and answers with the error.
\<close>

definition constructorAt :: "string \<Rightarrow> char option \<Rightarrow> string \<Rightarrow> bool" where
  \<comment> \<open>\<^verbatim>\<open>\b\<close>, the name, \<^verbatim>\<open>\s*\<close> and \<^verbatim>\<open>\(\<close> at a position, for a name of word characters\<close>
  "constructorAt className prev rest =
     (wordBoundary prev rest \<and> startsWith rest className \<and>
      startsWith (dropWhile isWhiteSpace (drop (length className) rest)) ''('')"

definition identifierTest :: regExpTest where
  "identifierTest pattern line =
     (let className = take (length pattern - 7) (drop 2 pattern)
      in if pattern = constructorPattern className \<and> list_all isWordChar className
         then Inr (regexSearch (constructorAt className) None line)
         else Inl SyntaxError)"

section \<open>Token utilities\<close>

definition charAt :: "string \<Rightarrow> int \<Rightarrow> string" where
  \<comment> \<open>\<^verbatim>\<open>str.charAt(i)\<close>: the empty string out of range\<close>
  "charAt str i = (if 0 \<le> i \<and> i < int (length str) then [str ! nat i] else [])"

definition substring :: "string \<Rightarrow> int \<Rightarrow> int \<Rightarrow> string" where
  \<comment> \<open>\<^verbatim>\<open>str.substring(a, b)\<close>: both ends clamped to the string, swapped when \<open>a > b\<close>\<close>
  "substring str a b =
     (let n = int (length str);
          a' = max 0 (min a n);
          b' = max 0 (min b n);
          from = min a' b';
          to = max a' b'
      in take (nat (to - from)) (drop (nat from) str))"

function prevLoop :: "string \<Rightarrow> int \<Rightarrow> int \<Rightarrow> int \<times> int" where
  \<comment> \<open>the \<^verbatim>\<open>for\<close> loop on \<open>(idxStart, idxEnd)\<close>; \<^verbatim>\<open>continue\<close> and the end of the
      body both go through \<^verbatim>\<open>idxStart--\<close>\<close>
  "prevLoop str idxStart idxEnd =
     (if idxStart > 0
      then (if idxEnd = 0
            then (if charAt str idxStart = '' '' then prevLoop str (idxStart - 1) idxEnd
                  else prevLoop str (idxStart - 1) (idxStart + 1))
            else if charAt str idxStart = '' '' then (idxStart + 1, idxEnd)
            else prevLoop str (idxStart - 1) idxEnd)
      else (idxStart, idxEnd))"
  by pat_completeness auto
termination
  by (relation "measure (\<lambda>(str, idxStart, idxEnd). nat idxStart)") auto

declare prevLoop.simps [simp del]

definition previousWord :: "string \<Rightarrow> int \<Rightarrow> string" where
  "previousWord str searchIdx =
     (if str = [] then []
      else if searchIdx \<ge> int (length str) then []
      else (case prevLoop str (searchIdx - 1) 0 of (idxStart, idxEnd) \<Rightarrow>
              substring str idxStart idxEnd))"

section \<open>Properties of the string operations\<close>

text \<open>
  A trimmed line neither starts nor ends with white space, and trimming it again changes
  nothing.
\<close>

lemma last_dropWhile_keep: "dropWhile P xs \<noteq> [] \<Longrightarrow> last (dropWhile P xs) = last xs"
  by (induction xs) auto

lemma trim_hd: "trim s = c # r \<Longrightarrow> \<not> isWhiteSpace c"
proof -
  assume a: "trim s = c # r"
  let ?t = "dropWhile isWhiteSpace s"
  let ?u = "dropWhile isWhiteSpace (rev ?t)"
  from a have u: "?u \<noteq> []" by (auto simp: trim_def)
  have t: "?t \<noteq> []"
  proof
    assume "?t = []"
    then have "?u = []" by (simp only: rev.simps dropWhile.simps)
    with u show False by simp
  qed
  have "c = hd (rev ?u)" using a by (simp add: trim_def)
  also have "\<dots> = last ?u" using u by (simp add: hd_rev)
  also have "\<dots> = last (rev ?t)" using u by (rule last_dropWhile_keep)
  also have "\<dots> = hd ?t" using t by (simp add: last_rev)
  finally show ?thesis using t hd_dropWhile by metis
qed

lemma trim_not_startsWith_space: "\<not> startsWith (trim s) ('' '' @ r)"
proof
  assume "startsWith (trim s) ('' '' @ r)"
  then obtain r' where "trim s = CHR '' '' # r'"
    by (cases "trim s") (auto simp: startsWith_def)
  then have "\<not> isWhiteSpace (CHR '' '')" by (rule trim_hd)
  then show False by (simp add: isWhiteSpace_def)
qed

lemma trim_last: "trim s \<noteq> [] \<Longrightarrow> \<not> isWhiteSpace (last (trim s))"
proof -
  let ?u = "dropWhile isWhiteSpace (rev (dropWhile isWhiteSpace s))"
  assume "trim s \<noteq> []"
  then have u: "?u \<noteq> []" by (simp add: trim_def)
  then have "\<not> isWhiteSpace (hd ?u)" by (rule hd_dropWhile)
  moreover have "last (trim s) = hd ?u" using u by (simp add: trim_def last_rev)
  ultimately show ?thesis by simp
qed

lemma trim_idem: "trim (trim s) = trim s"
proof (cases "trim s")
  case Nil
  have "trim [] = []" by (simp add: trim_def)
  with Nil show ?thesis by simp
next
  case (Cons c r)
  then have h: "\<not> isWhiteSpace c" by (rule trim_hd)
  from Cons have "\<not> isWhiteSpace (last (trim s))" using trim_last[of s] by simp
  then have "\<not> isWhiteSpace (hd (rev (trim s)))" by (simp add: hd_rev)
  then have l: "\<not> isWhiteSpace (hd (rev (c # r)))" unfolding Cons .
  have "dropWhile isWhiteSpace (c # r) = c # r" using h by simp
  moreover have "dropWhile isWhiteSpace (rev (c # r)) = rev (c # r)"
    using l by (subst dropWhile_eq_self_iff) simp
  ultimately have "trim (c # r) = c # r" unfolding trim_def by (simp only: rev_rev_ident)
  with Cons show ?thesis by simp
qed

lemma startsWith_append: "startsWith s p = (\<exists>rest. s = p @ rest)"
  unfolding startsWith_def by (metis append_eq_conv_conj append_take_drop_id)

lemma funpow_fixed: "f x = x \<Longrightarrow> (f ^^ n) x = x"
  by (induction n) auto

section \<open>Properties of the scope resolver\<close>

lemma scopeLoop_Some:
  "scopeLoop config line = (Some s, l) \<Longrightarrow>
   \<exists>k<length config. s = toLowerCase (config ! k) \<and> l = (normalise ^^ Suc k) line \<and>
     keywordMatches s l \<and>
     (\<forall>j<k. \<not> keywordMatches (toLowerCase (config ! j)) ((normalise ^^ Suc j) line))"
proof (induction config arbitrary: line)
  case Nil
  then show ?case by simp
next
  case (Cons scope rest)
  show ?case
  proof (cases "keywordMatches (toLowerCase scope) (normalise line)")
    case True
    with Cons.prems have "s = toLowerCase scope" "l = normalise line"
      by (auto simp: keywordMatches_def Let_def split: if_splits)
    with True show ?thesis by (intro exI[of _ 0]) simp
  next
    case False
    with Cons.prems have "scopeLoop rest (normalise line) = (Some s, l)"
      by (auto simp: keywordMatches_def Let_def split: if_splits)
    from Cons.IH[OF this] obtain k where k: "k < length rest" "s = toLowerCase (rest ! k)"
      "l = (normalise ^^ Suc k) (normalise line)" "keywordMatches s l"
      "\<forall>j<k. \<not> keywordMatches (toLowerCase (rest ! j)) ((normalise ^^ Suc j) (normalise line))"
      by blast
    show ?thesis
    proof (intro exI[of _ "Suc k"] conjI allI impI)
      fix j assume "j < Suc k"
      then show "\<not> keywordMatches (toLowerCase ((scope # rest) ! j)) ((normalise ^^ Suc j) line)"
        using False k(5) by (cases j) (auto simp: funpow_swap1)
    qed (use k in \<open>auto simp: funpow_swap1\<close>)
  qed
qed

lemma scopeLoop_None:
  "(fst (scopeLoop config line) = None) =
   (\<forall>k<length config. \<not> keywordMatches (toLowerCase (config ! k)) ((normalise ^^ Suc k) line))"
proof (induction config arbitrary: line)
  case Nil
  then show ?case by simp
next
  case (Cons scope rest)
  show ?case
  proof (cases "keywordMatches (toLowerCase scope) (normalise line)")
    case True
    then have "fst (scopeLoop (scope # rest) line) \<noteq> None"
      by (auto simp: keywordMatches_def Let_def)
    moreover have "\<not> (\<forall>k<length (scope # rest). \<not> keywordMatches (toLowerCase ((scope # rest) ! k)) ((normalise ^^ Suc k) line))"
      using True by (auto intro!: exI[of _ 0])
    ultimately show ?thesis by blast
  next
    case False
    then have "scopeLoop (scope # rest) line = scopeLoop rest (normalise line)"
      by (auto simp: keywordMatches_def Let_def)
    then have "(fst (scopeLoop (scope # rest) line) = None) =
      (\<forall>k<length rest. \<not> keywordMatches (toLowerCase (rest ! k)) ((normalise ^^ Suc k) (normalise line)))"
      using Cons.IH by simp
    also have "\<dots> = (\<forall>k<length (scope # rest). \<not> keywordMatches (toLowerCase ((scope # rest) ! k)) ((normalise ^^ Suc k) line))"
      using False by (auto simp: funpow_swap1 less_Suc_eq_0_disj)
    finally show ?thesis .
  qed
qed

lemma keywordMatches_nonempty: "keywordMatches s (normalise line) \<Longrightarrow> s \<noteq> []"
  using trim_not_startsWith_space[of _ "[]"]
  by (auto simp: keywordMatches_def normalise_def TEST_METHOD_def)

lemma scopeLoop_Some_nonempty: "scopeLoop config line = (Some s, l) \<Longrightarrow> s \<noteq> []"
proof -
  assume "scopeLoop config line = (Some s, l)"
  from scopeLoop_Some[OF this] obtain k where "l = (normalise ^^ Suc k) line" "keywordMatches s l"
    by blast
  then have "keywordMatches s (normalise ((normalise ^^ k) line))" by simp
  then show ?thesis by (rule keywordMatches_nonempty)
qed

lemma getScope_not_empty: "getScope config line \<noteq> Some []"
proof (cases "scopeLoop config line")
  case (Pair r l)
  then show ?thesis
    using scopeLoop_Some_nonempty[of config line _ l]
    by (cases r) (auto simp: getScope_def PRIVATE_def)
qed

lemma keywordMatches_anchored:
  "keywordMatches s l \<Longrightarrow>
   (\<exists>rest. l = s @ '' '' @ rest) \<or> (s = TEST_METHOD \<and> (\<exists>rest. l = ''static '' @ s @ '' '' @ rest))"
proof -
  have sw: "\<exists>rest. l = p @ rest" if "startsWith l p" for p
    using that unfolding startsWith_def by (metis append_take_drop_id)
  assume "keywordMatches s l"
  then consider "startsWith l (s @ '' '')"
    | "s = TEST_METHOD" "startsWith l (''static '' @ TEST_METHOD @ '' '')"
    unfolding keywordMatches_def by blast
  then show ?thesis
  proof cases
    case 1
    from sw[OF this] show ?thesis by auto
  next
    case 2
    from sw[OF 2(2)] 2(1) show ?thesis by auto
  qed
qed

text \<open>
  Claim C10. With the empty scope configuration \<open>getScope\<close> finds no scope for any line:
  the keyword loop runs zero times, and the implicit-private heuristics need
  \<^verbatim>\<open>private\<close> in the configuration. The loop then leaves the line as it was given, not
  normalised.
\<close>

theorem getScope_empty_config:
  "getScope [] line = None \<and> scopeLoop [] line = (None, line)"
  by (simp add: getScope_def)

text \<open>
  Claim C9. The result of \<open>getScope\<close> is never the empty string: it is absent exactly
  when the keyword loop finds nothing and the implicit-private heuristics do not apply,
  and a scope that is found is a non-empty string.
\<close>

theorem getScope_no_match_distinct:
  "getScope config line \<noteq> Some [] \<and>
   ((getScope config line = None) =
    (fst (scopeLoop config line) = None \<and>
     \<not> (PRIVATE \<in> set config \<and> implicitPrivate (snd (scopeLoop config line)))))"
proof
  show "getScope config line \<noteq> Some []"
    by (rule getScope_not_empty)
  show "(getScope config line = None) =
    (fst (scopeLoop config line) = None \<and>
     \<not> (PRIVATE \<in> set config \<and> implicitPrivate (snd (scopeLoop config line))))"
    by (cases "scopeLoop config line") (auto simp: getScope_def split: option.splits)
qed

theorem getScope_no_match_distinct_witness:
  "fst (scopeLoop [''public''] ''Integer count;'') = None \<and>
   PRIVATE \<notin> set [''public''] \<and>
   getScope [''public''] ''Integer count;'' = None \<and>
   getScope [''public''] ''Integer count;'' \<noteq> Some []"
proof -
  have a: "fst (scopeLoop [''public''] ''Integer count;'') = None" by code_simp
  have b: "PRIVATE \<notin> set [''public'']" by (simp add: PRIVATE_def)
  show ?thesis
    using a b getScope_no_match_distinct[of "[''public'']" "''Integer count;''"] by simp
qed

text \<open>
  Claim C3. With the configuration \<^verbatim>\<open>["private"]\<close> the line \<^verbatim>\<open>void calculate()\<close> is
  resolved to \<^verbatim>\<open>private\<close> and the line \<^verbatim>\<open>void description\<close> to nothing. For a
  configuration without \<^verbatim>\<open>private\<close> the result is the one of the keyword loop alone, so
  it is absent whenever no configured keyword matches the line of its round.
\<close>

theorem getScope_implicit_private_gate:
  "getScope [''private''] ''void calculate()'' = Some ''private'' \<and>
   getScope [''private''] ''void description'' = None \<and>
   (PRIVATE \<notin> set config \<longrightarrow> getScope config line = fst (scopeLoop config line)) \<and>
   (PRIVATE \<notin> set config \<and>
    (\<forall>k<length config.
       \<not> keywordMatches (toLowerCase (config ! k)) ((normalise ^^ Suc k) line)) \<longrightarrow>
    getScope config line = None)"
proof (intro conjI impI)
  show "getScope [''private''] ''void calculate()'' = Some ''private''" by code_simp
  show "getScope [''private''] ''void description'' = None" by code_simp
  show g: "getScope config line = fst (scopeLoop config line)" if "PRIVATE \<notin> set config"
    using that by (cases "scopeLoop config line") (auto simp: getScope_def split: option.splits)
  show "getScope config line = None"
    if "PRIVATE \<notin> set config \<and>
      (\<forall>k<length config. \<not> keywordMatches (toLowerCase (config ! k)) ((normalise ^^ Suc k) line))"
    using that g scopeLoop_None[of config line] by simp
qed

theorem getScope_implicit_private_gate_witness:
  "PRIVATE \<notin> set [''public''] \<and>
   \<not> keywordMatches (toLowerCase ''public'') (normalise ''void calculate()'') \<and>
   getScope [''public''] ''void calculate()'' = None"
proof -
  have a: "PRIVATE \<notin> set [''public'']" by (simp add: PRIVATE_def)
  have b: "\<not> keywordMatches (toLowerCase ''public'') (normalise ''void calculate()'')"
    by code_simp
  have c: "\<forall>k<length [''public''].
      \<not> keywordMatches (toLowerCase ([''public''] ! k)) ((normalise ^^ Suc k) ''void calculate()'')"
    using b by simp
  show ?thesis
    using a b c getScope_implicit_private_gate[of "[''public'']" "''void calculate()''"] by blast
qed

text \<open>
  Claim C4, as stated, fails: the keyword \<^verbatim>\<open>testmethod\<close> matches a line that starts
  with \<^verbatim>\<open>static testmethod\<close>, where it is the second word and not the leading one.
\<close>

theorem getScope_keyword_leading_counterexample:
  "getScope [''testmethod''] ''static testmethod void run()'' = Some ''testmethod'' \<and>
   \<not> startsWith (normalise ''static testmethod void run()'') ''testmethod''"
  by code_simp

text \<open>
  Claim C4, amended. A scope returned by the keyword loop is a lowercased keyword of the
  configuration, and the line of that round has it as a whole word followed by a space:
  at its start, or, for \<^verbatim>\<open>testmethod\<close>, right behind a leading \<^verbatim>\<open>static\<close> and a
  space. So \<^verbatim>\<open>public\<close> is never the scope of the line \<^verbatim>\<open>publicly shared\<close>, and with the
  configuration \<^verbatim>\<open>["public","private"]\<close> the line \<^verbatim>\<open>public void foo()\<close> has the scope
  \<^verbatim>\<open>public\<close>.
\<close>

theorem getScope_keyword_anchored:
  "(scopeLoop config line = (Some s, l) \<longrightarrow>
      (\<exists>k<length config. s = toLowerCase (config ! k) \<and> l = (normalise ^^ Suc k) line) \<and>
      ((\<exists>rest. l = s @ '' '' @ rest) \<or>
       (s = TEST_METHOD \<and> (\<exists>rest. l = ''static '' @ s @ '' '' @ rest)))) \<and>
   getScope config ''publicly shared'' \<noteq> Some ''public'' \<and>
   getScope [''public'', ''private''] ''public void foo()'' = Some ''public''"
proof (intro conjI impI)
  assume a: "scopeLoop config line = (Some s, l)"
  from scopeLoop_Some[OF a]
  show "\<exists>k<length config. s = toLowerCase (config ! k) \<and> l = (normalise ^^ Suc k) line"
    by blast
  from scopeLoop_Some[OF a] have "keywordMatches s l" by blast
  then show "(\<exists>rest. l = s @ '' '' @ rest) \<or>
       (s = TEST_METHOD \<and> (\<exists>rest. l = ''static '' @ s @ '' '' @ rest))"
    by (rule keywordMatches_anchored)
next
  have fp: "normalise ''publicly shared'' = ''publicly shared''" by code_simp
  show "getScope config ''publicly shared'' \<noteq> Some ''public''"
  proof
    assume g: "getScope config ''publicly shared'' = Some ''public''"
    obtain r l where rl: "scopeLoop config ''publicly shared'' = (r, l)" by (cases "scopeLoop config ''publicly shared''")
    with g have "r = Some ''public''"
      by (cases r) (auto simp: getScope_def PRIVATE_def split: if_splits)
    with rl have sl: "scopeLoop config ''publicly shared'' = (Some ''public'', l)" by simp
    from scopeLoop_Some[OF sl] obtain k where k: "l = (normalise ^^ Suc k) ''publicly shared''"
      "keywordMatches ''public'' l" by blast
    from k(1) have "l = ''publicly shared''" using funpow_fixed[of normalise "''publicly shared''" "Suc k"] fp by simp
    with k(2) show False by (simp add: keywordMatches_def startsWith_def TEST_METHOD_def)
  qed
next
  show "getScope [''public'', ''private''] ''public void foo()'' = Some ''public''" by code_simp
qed

theorem getScope_keyword_anchored_witness:
  "scopeLoop [''public'', ''private''] ''public void foo()'' = (Some ''public'', ''public void foo()'') \<and>
   ((\<exists>rest. ''public void foo()'' = ''public'' @ '' '' @ rest) \<or>
    (''public'' = TEST_METHOD \<and> (\<exists>rest. ''public void foo()'' = ''static '' @ ''public'' @ '' '' @ rest)))"
proof -
  have a: "scopeLoop [''public'', ''private''] ''public void foo()'' = (Some ''public'', ''public void foo()'')"
    by code_simp
  show ?thesis
    using a getScope_keyword_anchored[of "[''public'', ''private'']" "''public void foo()''" "''public''" "''public void foo()''"]
    by blast
qed

section \<open>Properties of the skip decision\<close>

text \<open>
  Claim C1, as stated, fails on its own example: \<^verbatim>\<open>global class Foo {\<close> starts with
  \<^verbatim>\<open>global\<close>, not with the class keyword, so with no matching scope and no class
  context the line is skipped.
\<close>

theorem shouldSkipLine_global_class_counterexample:
  "getScope [''public'', ''private''] ''global class Foo {'' = None \<and>
   shouldSkipLine identifierTest [''public'', ''private''] ''global class Foo {'' None = Inr True"
  by code_simp

text \<open>
  Claim C1, amended. A line whose lowercased text starts with the enum, class or interface
  keyword and a space is kept, whatever the scope configuration and the class context; so
  is every line for which \<open>getScope\<close> finds a scope. Both hold for every engine, since
  the pattern of the class name is not built on such a line, and nothing is thrown.
  Without a class context the line \<^verbatim>\<open>global class Foo {\<close> is skipped exactly when
  \<open>getScope\<close> finds no scope for it.
\<close>

theorem shouldSkipLine_keeps_declarations:
  "(startsWith (toLowerCase line) (ENUM @ '' '') \<or>
    startsWith (toLowerCase line) (CLASS @ '' '') \<or>
    startsWith (toLowerCase line) (INTERFACE @ '' '') \<longrightarrow>
    shouldSkipLine regExpTest config line cModel = Inr False) \<and>
   (getScope config line \<noteq> None \<longrightarrow> shouldSkipLine regExpTest config line cModel = Inr False) \<and>
   shouldSkipLine regExpTest config ''global class Foo {'' None =
     Inr (getScope config ''global class Foo {'' = None)"
proof (intro conjI impI)
  show "shouldSkipLine regExpTest config line cModel = Inr False"
    if "startsWith (toLowerCase line) (ENUM @ '' '') \<or>
    startsWith (toLowerCase line) (CLASS @ '' '') \<or>
    startsWith (toLowerCase line) (INTERFACE @ '' '')"
    using that by (auto simp: shouldSkipLine_def Let_def)
  show "shouldSkipLine regExpTest config line cModel = Inr False" if "getScope config line \<noteq> None"
    using that getScope_not_empty[of config line] by (auto simp: shouldSkipLine_def Let_def)
  have a: "\<not> startsWith (toLowerCase ''global class Foo {'') (ENUM @ '' '')" by code_simp
  have b: "\<not> startsWith (toLowerCase ''global class Foo {'') (CLASS @ '' '')" by code_simp
  have c: "\<not> startsWith (toLowerCase ''global class Foo {'') (INTERFACE @ '' '')" by code_simp
  show "shouldSkipLine regExpTest config ''global class Foo {'' None =
     Inr (getScope config ''global class Foo {'' = None)"
    using a b c getScope_not_empty[of config "''global class Foo {''"]
    unfolding shouldSkipLine_def Let_def by simp
qed

theorem shouldSkipLine_keeps_declarations_witness:
  "startsWith (toLowerCase ''Class Foo {'') (CLASS @ '' '') \<and>
   getScope [''public''] ''Class Foo {'' = None \<and>
   shouldSkipLine identifierTest [''public''] ''Class Foo {'' None = Inr False"
proof -
  have a: "startsWith (toLowerCase ''Class Foo {'') (CLASS @ '' '')" by code_simp
  have b: "getScope [''public''] ''Class Foo {'' = None" by code_simp
  show ?thesis
    using a b
      shouldSkipLine_keeps_declarations[of "''Class Foo {''" identifierTest "[''public'']" None]
    by blast
qed

section \<open>Properties of the structural matcher\<close>





section \<open>Properties of the annotation stripper\<close>

lemma stripWhile_stripLoop:
  "i \<le> 100 \<Longrightarrow>
   \<exists>c. stripWhile i line = Some (stripLoop i line, c) \<and> i \<le> c \<and> c \<le> 100 \<and>
     (c < 100 \<longrightarrow> \<not> leadingAt (stripLoop i line)) \<and>
     (\<forall>j<c - i. leadingAt ((stripStep ^^ j) line)) \<and>
     (stripLoop i line = (stripStep ^^ (c - i)) line \<or>
      (c = 100 \<and> stripLoop i line = (stripStep ^^ (101 - i)) line))"
proof (induction i line rule: stripLoop.induct)
  case (1 i line)
  show ?case
  proof (cases "leadingAt line")
    case False
    then have "stripLoop i line = line" by (subst stripLoop.simps) simp
    moreover from False have "stripWhile i line = Some (line, i)" by (subst stripWhile.simps) simp
    ultimately show ?thesis using False "1.prems" by (intro exI[of _ i]) simp
  next
    case True
    show ?thesis
    proof (cases "i \<ge> 100")
      case cap: True
      with "1.prems" have i: "i = 100" by simp
      from True cap have "stripLoop i line = stripStep line" by (subst stripLoop.simps) simp
      moreover from True cap have "stripWhile i line = Some (stripStep line, i)"
        by (subst stripWhile.simps) simp
      ultimately show ?thesis using i by (intro exI[of _ 100]) simp
    next
      case nocap: False
      with True have eq: "stripLoop i line = stripLoop (i + 1) (stripStep line)"
        by (subst stripLoop.simps) simp
      from True nocap have eqw: "stripWhile i line = stripWhile (i + 1) (stripStep line)"
        by (subst stripWhile.simps) simp
      from nocap have "i + 1 \<le> 100" by simp
      from "1.IH"[OF True nocap this] obtain c where c:
        "stripWhile (i + 1) (stripStep line) = Some (stripLoop (i + 1) (stripStep line), c)"
        "i + 1 \<le> c" "c \<le> 100"
        "c < 100 \<longrightarrow> \<not> leadingAt (stripLoop (i + 1) (stripStep line))"
        "\<forall>j<c - (i + 1). leadingAt ((stripStep ^^ j) (stripStep line))"
        "stripLoop (i + 1) (stripStep line) = (stripStep ^^ (c - (i + 1))) (stripStep line) \<or>
         (c = 100 \<and> stripLoop (i + 1) (stripStep line) = (stripStep ^^ (101 - (i + 1))) (stripStep line))"
        by blast
      have s1: "(stripStep ^^ (c - (i + 1))) (stripStep line) = (stripStep ^^ (c - i)) line"
      proof -
        have "c - i = Suc (c - (i + 1))" using c(2) by simp
        then show ?thesis by (simp add: funpow_swap1)
      qed
      have s2: "(stripStep ^^ (101 - (i + 1))) (stripStep line) = (stripStep ^^ (101 - i)) line"
      proof -
        have "101 - i = Suc (101 - (i + 1))" using nocap by simp
        then show ?thesis by (simp add: funpow_swap1)
      qed
      have s3: "leadingAt ((stripStep ^^ j) line)" if "j < c - i" for j
      proof (cases j)
        case 0
        with True show ?thesis by simp
      next
        case (Suc j')
        with that have "j' < c - (i + 1)" by simp
        with c(5) have "leadingAt ((stripStep ^^ j') (stripStep line))" by blast
        with Suc show ?thesis by (simp add: funpow_swap1)
      qed
      show ?thesis
      proof (intro exI[of _ c] conjI)
        show "stripWhile i line = Some (stripLoop i line, c)" using eq eqw c(1) by simp
        show "i \<le> c" using c(2) by simp
        show "c \<le> 100" by (rule c(3))
        show "c < 100 \<longrightarrow> \<not> leadingAt (stripLoop i line)" using c(4) eq by simp
        show "\<forall>j<c - i. leadingAt ((stripStep ^^ j) line)" using s3 by blast
        show "stripLoop i line = (stripStep ^^ (c - i)) line \<or>
          (c = 100 \<and> stripLoop i line = (stripStep ^^ (101 - i)) line)"
          using c(6) unfolding eq s1 s2 .
      qed
    qed
  qed
qed

text \<open>
  Claim C6. The loop of \<open>stripAnnotations\<close> leaves on every line, with the result of
  \<open>stripAnnotations\<close> and a counter that never exceeds the cap of 100. When it leaves
  below the cap, the line no longer starts with \<^verbatim>\<open>@\<close> (trimmed) or is empty. The result
  is the removal step repeated as many times as the counter says, the line starting with
  \<^verbatim>\<open>@\<close> before each of them; at the cap, where the counter is compared after the removal,
  it may be repeated 101 times, and the line is returned as stripped so far.
\<close>

theorem stripAnnotations_terminates:
  "\<exists>r c. stripWhile 0 line = Some (r, c) \<and> r = stripAnnotations line \<and> c \<le> 100 \<and>
     (c < 100 \<longrightarrow> \<not> leadingAt r) \<and>
     (\<forall>j<c. leadingAt ((stripStep ^^ j) line)) \<and>
     (r = (stripStep ^^ c) line \<or> (c = 100 \<and> r = (stripStep ^^ 101) line))"
proof -
  from stripWhile_stripLoop[of 0 line] obtain c where
    "stripWhile 0 line = Some (stripLoop 0 line, c)" "c \<le> 100"
    "c < 100 \<longrightarrow> \<not> leadingAt (stripLoop 0 line)"
    "\<forall>j<c. leadingAt ((stripStep ^^ j) line)"
    "stripLoop 0 line = (stripStep ^^ c) line \<or> (c = 100 \<and> stripLoop 0 line = (stripStep ^^ 101) line)"
    by auto
  then show ?thesis
    unfolding stripAnnotations_def by blast
qed

theorem stripAnnotations_terminates_witness:
  "(\<exists>c. stripWhile 0 ''@isTest void run()'' = Some (stripAnnotations ''@isTest void run()'', c)) \<and>
   stripAnnotations ''@isTest void run()'' = ''void run()''"
proof -
  have "stripAnnotations ''@isTest void run()'' = ''void run()''" by code_simp
  then show ?thesis using stripAnnotations_terminates[of "''@isTest void run()''"] by auto
qed

lemma count_dropWhile: "count_list (dropWhile P xs) c \<le> count_list xs c"
  by (induction xs) auto

lemma count_tl: "count_list (tl xs) c \<le> count_list xs c"
  by (cases xs) auto

lemma count_trim: "count_list (trim s) c \<le> count_list s c"
proof -
  have "count_list (trim s) c = count_list (dropWhile isWhiteSpace (rev (dropWhile isWhiteSpace s))) c"
    by (simp add: trim_def)
  also have "\<dots> \<le> count_list (rev (dropWhile isWhiteSpace s)) c" by (rule count_dropWhile)
  also have "\<dots> = count_list (dropWhile isWhiteSpace s) c" by simp
  also have "\<dots> \<le> count_list s c" by (rule count_dropWhile)
  finally show ?thesis .
qed

lemma count_afterAnnotation: "count_list (afterAnnotation cs) c \<le> count_list cs c"
proof -
  let ?r = "dropWhile isWhiteSpace (dropWhile isWordChar cs)"
  have r: "count_list ?r c \<le> count_list cs c"
    using count_dropWhile[of isWhiteSpace "dropWhile isWordChar cs" c]
      count_dropWhile[of isWordChar cs c] by linarith
  show ?thesis
  proof (cases ?r)
    case Nil
    have "afterAnnotation cs = []" unfolding afterAnnotation_def Let_def Nil by simp
    then show ?thesis by simp
  next
    case (Cons p as)
    have "count_list (tl (dropWhile isArgChar as)) c \<le> count_list as c"
      using count_tl[of "dropWhile isArgChar as" c] count_dropWhile[of isArgChar as c] by linarith
    also have "\<dots> \<le> count_list ?r c" using Cons by simp
    finally have "count_list (tl (dropWhile isArgChar as)) c \<le> count_list cs c" using r by linarith
    with r Cons show ?thesis by (simp add: afterAnnotation_def Let_def)
  qed
qed

lemma count_replaceAnnotation:
  "replaceAnnotation s \<noteq> s \<Longrightarrow>
   count_list (replaceAnnotation s) (CHR ''@'') < count_list s (CHR ''@'')"
proof (induction s)
  case Nil
  then show ?case by simp
next
  case (Cons c cs)
  show ?case
  proof (cases "c = CHR ''@'' \<and> cs \<noteq> [] \<and> isWordChar (hd cs)")
    case True
    then show ?thesis using count_afterAnnotation[of cs "CHR ''@''"] by (simp add: less_Suc_eq_le)
  next
    case False
    with Cons show ?thesis by auto
  qed
qed

lemma stripLoop_no_leadingAt: "\<not> leadingAt line \<Longrightarrow> stripLoop i line = line"
  by (subst stripLoop.simps) simp

lemma stripLoop_stuck: "leadingAt line \<Longrightarrow> stripStep line = line \<Longrightarrow> stripLoop i line = line"
proof (induction i line rule: stripLoop.induct)
  case (1 i line)
  show ?case
  proof (cases "i \<ge> 100")
    case True
    with 1 show ?thesis by (subst stripLoop.simps) simp
  next
    case False
    have "stripLoop (i + 1) (stripStep line) = stripStep line"
      using "1.IH"[OF "1.prems"(1) False] "1.prems" by simp
    with False 1 show ?thesis by (subst stripLoop.simps) simp
  qed
qed

lemma leadingAt_count: "leadingAt line \<Longrightarrow> 0 < count_list line (CHR ''@'')"
proof -
  assume "leadingAt line"
  then have "startsWith (trim line) ''@''" by (simp add: leadingAt_def)
  then have "CHR ''@'' \<in> set (trim line)"
    by (cases "trim line") (auto simp: startsWith_def)
  then have "0 < count_list (trim line) (CHR ''@'')" using count_list_0_iff[of "trim line" "CHR ''@''"] by auto
  with count_trim[of line "CHR ''@''"] show ?thesis by linarith
qed

lemma stripLoop_fixed_below_cap:
  "count_list line (CHR ''@'') + i \<le> 100 \<Longrightarrow> stripLoop k (stripLoop i line) = stripLoop i line"
proof (induction i line rule: stripLoop.induct)
  case (1 i line)
  show ?case
  proof (cases "leadingAt line")
    case False
    then show ?thesis by (simp add: stripLoop_no_leadingAt)
  next
    case True
    from leadingAt_count[OF True] "1.prems" have nocap: "\<not> i \<ge> 100" by simp
    with True have eq: "stripLoop i line = stripLoop (i + 1) (stripStep line)"
      by (subst stripLoop.simps) simp
    show ?thesis
    proof (cases "stripStep line = trim line")
      case stuck: True
      from True have "trim line \<noteq> []" by (auto simp: leadingAt_def startsWith_def)
      with True have l: "leadingAt (trim line)" by (simp add: leadingAt_def trim_idem)
      have s: "stripStep (trim line) = trim line" using stuck by (simp add: stripStep_def trim_idem)
      show ?thesis unfolding eq stuck using stripLoop_stuck[OF l s] by simp
    next
      case False
      then have "count_list (stripStep line) (CHR ''@'') < count_list (trim line) (CHR ''@'')"
        unfolding stripStep_def by (rule count_replaceAnnotation)
      with count_trim[of line "CHR ''@''"] "1.prems"
      have "count_list (stripStep line) (CHR ''@'') + (i + 1) \<le> 100" by linarith
      from "1.IH"[OF True nocap this] show ?thesis unfolding eq .
    qed
  qed
qed

text \<open>
  Claim C5, as stated, fails at the cap: of 102 leading annotations the first pass removes
  101 and the second pass the last one.
\<close>

theorem stripAnnotations_not_idempotent_counterexample:
  "stripAnnotations
     (''@a@a@a@a@a@a@a@a@a@a@a@a@a@a@a@a@a'' @
      ''@a@a@a@a@a@a@a@a@a@a@a@a@a@a@a@a@a'' @
      ''@a@a@a@a@a@a@a@a@a@a@a@a@a@a@a@a@a'' @
      ''@a@a@a@a@a@a@a@a@a@a@a@a@a@a@a@a@a'' @
      ''@a@a@a@a@a@a@a@a@a@a@a@a@a@a@a@a@a'' @
      ''@a@a@a@a@a@a@a@a@a@a@a@a@a@a@a@a@a'') =
     ''@a'' \<and>
   stripAnnotations
     (stripAnnotations
        (''@a@a@a@a@a@a@a@a@a@a@a@a@a@a@a@a@a'' @
         ''@a@a@a@a@a@a@a@a@a@a@a@a@a@a@a@a@a'' @
         ''@a@a@a@a@a@a@a@a@a@a@a@a@a@a@a@a@a'' @
         ''@a@a@a@a@a@a@a@a@a@a@a@a@a@a@a@a@a'' @
         ''@a@a@a@a@a@a@a@a@a@a@a@a@a@a@a@a@a'' @
         ''@a@a@a@a@a@a@a@a@a@a@a@a@a@a@a@a@a'')) =
     [] \<and>
   stripAnnotations
     (stripAnnotations
        (''@a@a@a@a@a@a@a@a@a@a@a@a@a@a@a@a@a'' @
         ''@a@a@a@a@a@a@a@a@a@a@a@a@a@a@a@a@a'' @
         ''@a@a@a@a@a@a@a@a@a@a@a@a@a@a@a@a@a'' @
         ''@a@a@a@a@a@a@a@a@a@a@a@a@a@a@a@a@a'' @
         ''@a@a@a@a@a@a@a@a@a@a@a@a@a@a@a@a@a'' @
         ''@a@a@a@a@a@a@a@a@a@a@a@a@a@a@a@a@a'')) \<noteq>
   stripAnnotations
     (''@a@a@a@a@a@a@a@a@a@a@a@a@a@a@a@a@a'' @
      ''@a@a@a@a@a@a@a@a@a@a@a@a@a@a@a@a@a'' @
      ''@a@a@a@a@a@a@a@a@a@a@a@a@a@a@a@a@a'' @
      ''@a@a@a@a@a@a@a@a@a@a@a@a@a@a@a@a@a'' @
      ''@a@a@a@a@a@a@a@a@a@a@a@a@a@a@a@a@a'' @
      ''@a@a@a@a@a@a@a@a@a@a@a@a@a@a@a@a@a'')"
proof -
  have a: "stripAnnotations
     (''@a@a@a@a@a@a@a@a@a@a@a@a@a@a@a@a@a'' @
      ''@a@a@a@a@a@a@a@a@a@a@a@a@a@a@a@a@a'' @
      ''@a@a@a@a@a@a@a@a@a@a@a@a@a@a@a@a@a'' @
      ''@a@a@a@a@a@a@a@a@a@a@a@a@a@a@a@a@a'' @
      ''@a@a@a@a@a@a@a@a@a@a@a@a@a@a@a@a@a'' @
      ''@a@a@a@a@a@a@a@a@a@a@a@a@a@a@a@a@a'') =
     ''@a''"
    by code_simp
  have b: "stripAnnotations ''@a'' = []" by code_simp
  show ?thesis unfolding a b by simp
qed

text \<open>
  Claim C5, amended. \<open>stripAnnotations\<close> is idempotent on every line with at most 100
  characters \<^verbatim>\<open>@\<close>, and on every line whose result no longer starts with \<^verbatim>\<open>@\<close>
  (trimmed) or is empty.
\<close>

theorem stripAnnotations_idempotent_below_cap:
  "count_list line (CHR ''@'') \<le> 100 \<or> \<not> leadingAt (stripAnnotations line) \<longrightarrow>
   stripAnnotations (stripAnnotations line) = stripAnnotations line"
proof
  assume "count_list line (CHR ''@'') \<le> 100 \<or> \<not> leadingAt (stripAnnotations line)"
  then show "stripAnnotations (stripAnnotations line) = stripAnnotations line"
  proof
    assume "count_list line (CHR ''@'') \<le> 100"
    then show ?thesis unfolding stripAnnotations_def using stripLoop_fixed_below_cap[of line 0 0] by simp
  next
    assume "\<not> leadingAt (stripAnnotations line)"
    then show ?thesis unfolding stripAnnotations_def by (simp add: stripLoop_no_leadingAt)
  qed
qed

theorem stripAnnotations_idempotent_below_cap_witness:
  "count_list ''@isTest(SeeAllData=true) @deprecated public void run()'' (CHR ''@'') \<le> 100 \<and>
   stripAnnotations ''@isTest(SeeAllData=true) @deprecated public void run()'' = ''public void run()'' \<and>
   stripAnnotations (stripAnnotations ''@isTest(SeeAllData=true) @deprecated public void run()'') = ''public void run()''"
proof -
  have a: "count_list ''@isTest(SeeAllData=true) @deprecated public void run()'' (CHR ''@'') \<le> 100"
    by simp
  have b: "stripAnnotations ''@isTest(SeeAllData=true) @deprecated public void run()'' = ''public void run()''"
    by code_simp
  show ?thesis
    using a b stripAnnotations_idempotent_below_cap[of "''@isTest(SeeAllData=true) @deprecated public void run()''"]
    by simp
qed

section \<open>Properties of the class and interface matcher\<close>

lemma regexSearch_iff:
  "regexSearch m prev s =
   (\<exists>pre post. s = pre @ post \<and> m (if pre = [] then prev else Some (last pre)) post)"
proof (induction s arbitrary: prev)
  case Nil
  then show ?case by simp
next
  case (Cons c cs)
  have "(\<exists>pre post. c # cs = pre @ post \<and> m (if pre = [] then prev else Some (last pre)) post) =
        (m prev (c # cs) \<or>
         (\<exists>pre' post. cs = pre' @ post \<and> m (if pre' = [] then Some c else Some (last pre')) post))"
    (is "?L = (?A \<or> ?B)")
  proof
    assume ?L
    then obtain pre post where p: "c # cs = pre @ post"
      "m (if pre = [] then prev else Some (last pre)) post" by blast
    show "?A \<or> ?B"
    proof (cases pre)
      case Nil
      with p show ?thesis by simp
    next
      case (Cons a pre')
      with p have "cs = pre' @ post" "a = c" by auto
      moreover from p(2) Cons have "m (if pre' = [] then Some a else Some (last pre')) post"
        by (simp split: if_splits)
      ultimately have ?B by blast
      then show ?thesis ..
    qed
  next
    assume "?A \<or> ?B"
    then show ?L
    proof
      assume ?A
      then have "c # cs = [] @ c # cs \<and> m (if [] = [] then prev else Some (last [])) (c # cs)"
        by simp
      then show ?L by blast
    next
      assume ?B
      then obtain pre' post where "cs = pre' @ post"
        "m (if pre' = [] then Some c else Some (last pre')) post" by blast
      then have "c # cs = (c # pre') @ post \<and>
        m (if c # pre' = [] then prev else Some (last (c # pre'))) post"
        by (auto split: if_splits)
      then show ?L by blast
    qed
  qed
  with Cons show ?case by simp
qed

lemma regexSearch_here: "m prev s \<Longrightarrow> regexSearch m prev s"
  by (cases s) auto

lemma regexSearch_interfaceAt:
  "regexSearch interfaceAt prev s = regexSearch interfaceTail prev s"
proof (induction s arbitrary: prev)
  case Nil
  then show ?case by (simp add: interfaceAt_def)
next
  case (Cons c cs)
  show ?case
    using Cons[of "Some c"] regexSearch_here[of interfaceTail "Some c" cs]
    by (auto simp: interfaceAt_def)
qed

lemma classAt_iff:
  "classAt prev rest =
   (\<not> (case prev of None \<Rightarrow> False | Some c \<Rightarrow> isWordChar c) \<and>
    (\<exists>post. rest = ''class'' @ post \<and> (post = [] \<or> \<not> isWordChar (hd post))))"
proof -
  have c: "isWordChar (CHR ''c'')" and s: "isWordChar (CHR ''s'')" by (simp_all add: isWordChar_def)
  show ?thesis
  proof
    assume a: "classAt prev rest"
    then obtain post where p: "rest = ''class'' @ post"
      unfolding classAt_def startsWith_append by blast
    with a c s have "\<not> (case prev of None \<Rightarrow> False | Some c \<Rightarrow> isWordChar c)"
      and "post = [] \<or> \<not> isWordChar (hd post)"
      by (auto simp: classAt_def wordBoundary_def split: list.splits)
    with p show "\<not> (case prev of None \<Rightarrow> False | Some c \<Rightarrow> isWordChar c) \<and>
      (\<exists>post. rest = ''class'' @ post \<and> (post = [] \<or> \<not> isWordChar (hd post)))" by blast
  next
    assume "\<not> (case prev of None \<Rightarrow> False | Some c \<Rightarrow> isWordChar c) \<and>
      (\<exists>post. rest = ''class'' @ post \<and> (post = [] \<or> \<not> isWordChar (hd post)))"
    then obtain post where "\<not> (case prev of None \<Rightarrow> False | Some c \<Rightarrow> isWordChar c)"
      "rest = ''class'' @ post" "post = [] \<or> \<not> isWordChar (hd post)" by blast
    with c s show "classAt prev rest"
      by (cases post) (auto simp: classAt_def wordBoundary_def startsWith_def)
  qed
qed

lemma interfaceTail_iff:
  "interfaceTail prev rest =
   (\<not> (case prev of None \<Rightarrow> False | Some c \<Rightarrow> isWordChar c) \<and>
    (\<exists>c post. rest = ''interface'' @ c # post \<and> isWhiteSpace c))"
proof -
  have i: "isWordChar (CHR ''i'')" by (simp add: isWordChar_def)
  show ?thesis
  proof
    assume a: "interfaceTail prev rest"
    then obtain r where p: "rest = ''interface'' @ r"
      unfolding interfaceTail_def startsWith_append by blast
    with a i have "\<not> (case prev of None \<Rightarrow> False | Some c \<Rightarrow> isWordChar c)"
      and "\<exists>c post. r = c # post \<and> isWhiteSpace c"
      by (auto simp: interfaceTail_def wordBoundary_def split: list.splits)
    with p show "\<not> (case prev of None \<Rightarrow> False | Some c \<Rightarrow> isWordChar c) \<and>
      (\<exists>c post. rest = ''interface'' @ c # post \<and> isWhiteSpace c)" by blast
  next
    assume "\<not> (case prev of None \<Rightarrow> False | Some c \<Rightarrow> isWordChar c) \<and>
      (\<exists>c post. rest = ''interface'' @ c # post \<and> isWhiteSpace c)"
    then obtain c post where "\<not> (case prev of None \<Rightarrow> False | Some c \<Rightarrow> isWordChar c)"
      "rest = ''interface'' @ c # post" "isWhiteSpace c" by blast
    with i show "interfaceTail prev rest"
      by (auto simp: interfaceTail_def wordBoundary_def startsWith_def)
  qed
qed

lemma regexSearch_line_iff:
  assumes "\<And>prev rest. m prev rest =
     (\<not> (case prev of None \<Rightarrow> False | Some c \<Rightarrow> isWordChar c) \<and> Q rest)"
  shows "regexSearch m None s =
     (\<exists>pre post. s = pre @ post \<and> (pre = [] \<or> \<not> isWordChar (last pre)) \<and> Q post)"
  unfolding regexSearch_iff assms by (rule arg_cong[where f=Ex], rule ext, rule arg_cong[where f=Ex], rule ext) auto

text \<open>
  Claim C7, as stated, fails: \<^verbatim>\<open>interface\<close> at the end of the line is a whole word of
  the line, and the line is not classified, because the pattern asks for a white-space
  character behind the word.
\<close>

theorem isClassOrInterface_interface_counterexample:
  "specContainsWord ''interface'' (toLowerCase ''public interface'') \<and>
   \<not> isClassOrInterface ''public interface''"
proof
  have "toLowerCase ''public interface'' = ''public '' @ ''interface'' @ []" by code_simp
  moreover have "\<not> isWordChar (last ''public '')" by (simp add: isWordChar_def)
  ultimately show "specContainsWord ''interface'' (toLowerCase ''public interface'')"
    unfolding specContainsWord_def by blast
  show "\<not> isClassOrInterface ''public interface''" by code_simp
qed

text \<open>
  Claim C7, amended. \<open>isClassOrInterface\<close> holds exactly when the lowercased line
  contains \<^verbatim>\<open>class\<close> as a whole word, or contains \<^verbatim>\<open>interface\<close> with no word character
  before it and a white-space character right behind it.
\<close>

theorem isClassOrInterface_pattern:
  "isClassOrInterface line =
     (specContainsWord ''class'' (toLowerCase line) \<or>
      (\<exists>pre c post. toLowerCase line = pre @ ''interface'' @ c # post \<and> isWhiteSpace c \<and>
         (pre = [] \<or> \<not> isWordChar (last pre))))"
proof -
  let ?s = "toLowerCase line"
  have "regexSearch classAt None ?s =
    (\<exists>pre post. ?s = pre @ post \<and> (pre = [] \<or> \<not> isWordChar (last pre)) \<and>
       (\<exists>p. post = ''class'' @ p \<and> (p = [] \<or> \<not> isWordChar (hd p))))"
    by (rule regexSearch_line_iff) (rule classAt_iff)
  also have "\<dots> = specContainsWord ''class'' ?s"
    unfolding specContainsWord_def by blast
  finally have c: "regexSearch classAt None ?s = specContainsWord ''class'' ?s" .
  have "regexSearch interfaceAt None ?s =
    (\<exists>pre post. ?s = pre @ post \<and> (pre = [] \<or> \<not> isWordChar (last pre)) \<and>
       (\<exists>c p. post = ''interface'' @ c # p \<and> isWhiteSpace c))"
    unfolding regexSearch_interfaceAt by (rule regexSearch_line_iff) (rule interfaceTail_iff)
  also have "\<dots> = (\<exists>pre c post. ?s = pre @ ''interface'' @ c # post \<and> isWhiteSpace c \<and>
         (pre = [] \<or> \<not> isWordChar (last pre)))"
    by blast
  finally have i: "regexSearch interfaceAt None ?s =
    (\<exists>pre c post. ?s = pre @ ''interface'' @ c # post \<and> isWhiteSpace c \<and>
         (pre = [] \<or> \<not> isWordChar (last pre)))" .
  show ?thesis unfolding isClassOrInterface_def c i by simp
qed

theorem isClassOrInterface_pattern_witness:
  "toLowerCase ''public Interface Shape {'' = ''public '' @ ''interface'' @ CHR '' '' # ''shape {'' \<and>
   isClassOrInterface ''public Interface Shape {''"
proof -
  have a: "toLowerCase ''public Interface Shape {'' = ''public '' @ ''interface'' @ CHR '' '' # ''shape {''"
    by code_simp
  have b: "isWhiteSpace (CHR '' '')" by (simp add: isWhiteSpace_def)
  have c: "\<not> isWordChar (last ''public '')" by (simp add: isWordChar_def)
  from a b c have "\<exists>pre c post. toLowerCase ''public Interface Shape {'' = pre @ ''interface'' @ c # post \<and>
      isWhiteSpace c \<and> (pre = [] \<or> \<not> isWordChar (last pre))" by blast
  then have "isClassOrInterface ''public Interface Shape {''"
    using isClassOrInterface_pattern[of "''public Interface Shape {''"] by blast
  with a show ?thesis by blast
qed

section \<open>Properties of the token utilities\<close>

text \<open>
  Away from index 0 the loop of \<open>previousWord\<close> does what its description says: it
  skips the spaces before the index and returns the word before them, when that word
  follows a space at an index of at least 1 or starts the string with two characters or
  more. The result is empty for the empty string and for an index out of range.
\<close>

lemma prevLoop_stop: "i \<le> 0 \<Longrightarrow> prevLoop str i e = (i, e)"
  by (subst prevLoop.simps) simp

lemma charAt_nth: "j < length str \<Longrightarrow> charAt str (int j) = [str ! j]"
  by (simp add: charAt_def)

lemma prevLoop_skip:
  "k \<le> n \<Longrightarrow> \<forall>j. k < j \<and> j \<le> n \<longrightarrow> charAt str (int j) = '' '' \<Longrightarrow>
   prevLoop str (int n) 0 = prevLoop str (int k) 0"
proof (induction n)
  case 0
  then show ?case by simp
next
  case (Suc n)
  show ?case
  proof (cases "k = Suc n")
    case True
    then show ?thesis by simp
  next
    case False
    with Suc.prems have kn: "k \<le> n" by simp
    from Suc.prems False have "charAt str (int (Suc n)) = '' ''"
      by (auto simp del: of_nat_Suc)
    then have "prevLoop str (int (Suc n)) 0 = prevLoop str (int (Suc n) - 1) 0"
      by (subst prevLoop.simps) simp
    also have "\<dots> = prevLoop str (int n) 0" by simp
    also have "\<dots> = prevLoop str (int k) 0" using Suc.IH[OF kn] Suc.prems(2) by simp
    finally show ?thesis .
  qed
qed

lemma prevLoop_scan:
  "k \<le> n \<Longrightarrow> e \<noteq> 0 \<Longrightarrow> \<forall>j. k < j \<and> j \<le> n \<longrightarrow> charAt str (int j) \<noteq> '' '' \<Longrightarrow>
   prevLoop str (int n) e = prevLoop str (int k) e"
proof (induction n)
  case 0
  then show ?case by simp
next
  case (Suc n)
  show ?case
  proof (cases "k = Suc n")
    case True
    then show ?thesis by simp
  next
    case False
    with Suc.prems have kn: "k \<le> n" by simp
    from Suc.prems False have "charAt str (int (Suc n)) \<noteq> '' ''"
      by (auto simp del: of_nat_Suc)
    with Suc.prems(2) have "prevLoop str (int (Suc n)) e = prevLoop str (int (Suc n) - 1) e"
      by (subst prevLoop.simps) simp
    also have "\<dots> = prevLoop str (int n) e" by simp
    also have "\<dots> = prevLoop str (int k) e" using Suc.IH[OF kn Suc.prems(2)] Suc.prems(3) by simp
    finally show ?thesis .
  qed
qed

lemma prevLoop_word_end:
  "0 < k \<Longrightarrow> charAt str (int k) \<noteq> '' '' \<Longrightarrow>
   prevLoop str (int k) 0 = prevLoop str (int k - 1) (int k + 1)"
  by (subst prevLoop.simps) simp

lemma prevLoop_word_start:
  "0 < k \<Longrightarrow> e \<noteq> 0 \<Longrightarrow> charAt str (int k) = '' '' \<Longrightarrow>
   prevLoop str (int k) e = (int k + 1, e)"
  by (subst prevLoop.simps) simp

lemma substring_nat:
  "a \<le> b \<Longrightarrow> b \<le> length str \<Longrightarrow> substring str (int a) (int b) = take (b - a) (drop a str)"
  by (simp add: substring_def Let_def min_def max_def nat_diff_distrib')

lemma previousWord_empty_result:
  "str = [] \<or> idx \<le> 0 \<or> int (length str) \<le> idx \<Longrightarrow> previousWord str idx = []"
  by (auto simp: previousWord_def prevLoop_stop substring_def Let_def)

lemma charAt_segment:
  assumes "\<forall>x\<in>set b. P x" "length a \<le> j" "j < length a + length b"
  shows "\<exists>x. charAt (a @ b @ c) (int j) = [x] \<and> P x"
proof -
  from assms(2,3) have i: "j - length a < length b" by simp
  from assms(2,3) i have "(a @ b @ c) ! j = b ! (j - length a)" by (auto simp: nth_append)
  moreover from assms(3) have "j < length (a @ b @ c)" by simp
  ultimately have "charAt (a @ b @ c) (int j) = [b ! (j - length a)]" by (simp add: charAt_def)
  moreover have "P (b ! (j - length a))" using assms(1) nth_mem[OF i] by blast
  ultimately show ?thesis by blast
qed

lemma charAt_space:
  assumes "set b \<subseteq> {CHR '' ''}" "length a \<le> j" "j < length a + length b"
  shows "charAt (a @ b @ c) (int j) = '' ''"
proof -
  from assms(1) have "\<forall>x\<in>set b. x = CHR '' ''" by blast
  from charAt_segment[OF this assms(2,3), of c] show ?thesis by auto
qed

lemma charAt_no_space:
  assumes "CHR '' '' \<notin> set b" "length a \<le> j" "j < length a + length b"
  shows "charAt (a @ b @ c) (int j) \<noteq> '' ''"
proof -
  from assms(1) have "\<forall>x\<in>set b. x \<noteq> CHR '' ''" by blast
  from charAt_segment[OF this assms(2,3), of c] show ?thesis by auto
qed

lemma previousWord_spaces:
  assumes "rest \<noteq> []" "set sp \<subseteq> {CHR '' ''}"
  shows "previousWord (sp @ rest) (int (length sp)) = []"
proof (cases "length sp")
  case 0
  then show ?thesis by (intro previousWord_empty_result) simp
next
  case (Suc n)
  let ?str = "sp @ rest"
  have "\<forall>j. 0 < j \<and> j \<le> n \<longrightarrow> charAt ?str (int j) = '' ''"
  proof (intro allI impI)
    fix j assume "0 < j \<and> j \<le> n"
    then have "length ([]::string) \<le> j" "j < length ([]::string) + length sp" using Suc by simp_all
    from charAt_space[OF assms(2) this, of rest] show "charAt ?str (int j) = '' ''" by simp
  qed
  then have "prevLoop ?str (int n) 0 = prevLoop ?str (int 0) 0"
    by (rule prevLoop_skip[OF le0])
  then have "prevLoop ?str (int (length sp) - 1) 0 = (0, 0)"
    using Suc by (simp add: prevLoop_stop)
  with assms(1) show ?thesis by (simp add: previousWord_def substring_def)
qed

lemma previousWord_word:
  assumes "rest \<noteq> []" "set sp \<subseteq> {CHR '' ''}" "CHR '' '' \<notin> set w" "w \<noteq> []"
    and pre: "(pre = [] \<and> 2 \<le> length w) \<or> (2 \<le> length pre \<and> last pre = CHR '' '')"
  shows "prevLoop (pre @ w @ sp @ rest) (int (length (pre @ w @ sp)) - 1) 0 =
           (int (length pre), int (length pre + length w))"
proof -
  let ?str = "pre @ w @ sp @ rest"
  let ?p = "length pre"
  let ?m = "length pre + length w"
  let ?n = "length pre + length w + length sp"
  from assms(4) have w1: "1 \<le> length w" by (cases w) auto
  from pre w1 have m2: "2 \<le> ?m" by auto
  have sp: "\<forall>j. ?m - 1 < j \<and> j \<le> ?n - 1 \<longrightarrow> charAt ?str (int j) = '' ''"
  proof (intro allI impI)
    fix j assume "?m - 1 < j \<and> j \<le> ?n - 1"
    then have "length (pre @ w) \<le> j" "j < length (pre @ w) + length sp" using m2 by auto
    from charAt_space[OF assms(2) this, of rest] show "charAt ?str (int j) = '' ''" by simp
  qed
  have wd: "charAt ?str (int j) \<noteq> '' ''" if "?p \<le> j" "j < ?m" for j
    using charAt_no_space[OF assms(3) that, of "sp @ rest"] by simp
  have "prevLoop ?str (int (?n - 1)) 0 = prevLoop ?str (int (?m - 1)) 0"
    using sp by (intro prevLoop_skip) simp_all
  also have "\<dots> = prevLoop ?str (int (?m - 1) - 1) (int (?m - 1) + 1)"
  proof (rule prevLoop_word_end)
    show "0 < ?m - 1" using m2 by simp
    show "charAt ?str (int (?m - 1)) \<noteq> '' ''" using w1 by (intro wd) simp_all
  qed
  also have "\<dots> = prevLoop ?str (int (?m - 2)) (int ?m)"
    using m2 by (simp add: of_nat_diff)
  finally have l1: "prevLoop ?str (int (?n - 1)) 0 = prevLoop ?str (int (?m - 2)) (int ?m)" .
  have e: "int ?m \<noteq> 0" using m2 by simp
  from pre have l2: "prevLoop ?str (int (?m - 2)) (int ?m) = (int ?p, int ?m)"
  proof
    assume a: "pre = [] \<and> 2 \<le> length w"
    have "\<forall>j. 0 < j \<and> j \<le> ?m - 2 \<longrightarrow> charAt ?str (int j) \<noteq> '' ''"
      using a m2 by (intro allI impI wd) auto
    then have "prevLoop ?str (int (?m - 2)) (int ?m) = prevLoop ?str (int 0) (int ?m)"
      by (rule prevLoop_scan[OF le0 e])
    also have "\<dots> = (int 0, int ?m)" by (simp add: prevLoop_stop)
    finally show ?thesis using a by simp
  next
    assume a: "2 \<le> length pre \<and> last pre = CHR '' ''"
    have le: "?p - 1 \<le> ?m - 2" using a w1 by simp
    have "\<forall>j. ?p - 1 < j \<and> j \<le> ?m - 2 \<longrightarrow> charAt ?str (int j) \<noteq> '' ''"
      using a m2 by (intro allI impI wd) auto
    then have "prevLoop ?str (int (?m - 2)) (int ?m) = prevLoop ?str (int (?p - 1)) (int ?m)"
      by (rule prevLoop_scan[OF le e])
    also have "\<dots> = (int (?p - 1) + 1, int ?m)"
    proof (rule prevLoop_word_start[OF _ e])
      show "0 < ?p - 1" using a by simp
      from a have ne: "pre \<noteq> []" by auto
      then have "pre ! (?p - 1) = CHR '' ''" using a by (simp add: last_conv_nth)
      moreover have "?str ! (?p - 1) = pre ! (?p - 1)" using ne by (simp add: nth_append)
      moreover have "?p - 1 < ?p" using a by linarith
      then have "?p - 1 < length ?str" by (simp add: trans_less_add1)
      then have "charAt ?str (int (?p - 1)) = [?str ! (?p - 1)]" by (rule charAt_nth)
      ultimately show "charAt ?str (int (?p - 1)) = '' ''" by simp
    qed
    also have "\<dots> = (int ?p, int ?m)" using a by (simp add: of_nat_diff)
    finally show ?thesis .
  qed
  have "int (length (pre @ w @ sp)) - 1 = int (?n - 1)" using m2 by (simp add: of_nat_diff)
  with l1 l2 show ?thesis by simp
qed

lemma previousWord_found:
  assumes "rest \<noteq> []" "set sp \<subseteq> {CHR '' ''}" "CHR '' '' \<notin> set w" "w \<noteq> []"
    and pre: "(pre = [] \<and> 2 \<le> length w) \<or> (2 \<le> length pre \<and> last pre = CHR '' '')"
  shows "previousWord (pre @ w @ sp @ rest) (int (length (pre @ w @ sp))) = w"
proof -
  have "substring (pre @ w @ sp @ rest) (int (length pre)) (int (length pre + length w)) = w"
    by (subst substring_nat) simp_all
  with previousWord_word[OF assms] assms(1) show ?thesis by (simp add: previousWord_def)
qed

text \<open>
  Claim C2. The scan is to collect the characters of the word back to a space or to the
  start of the string, and the loop, which runs while \<^verbatim>\<open>idxStart > 0\<close>, never reads
  index 0. A space at index 0 is taken into the word (\<^verbatim>\<open>" ab"\<close> for index 3 of
  \<^verbatim>\<open>" ab cd"\<close>), and a word of one character at index 0 is not found (index 2 of
  \<^verbatim>\<open>"a b"\<close>, index 1 of \<^verbatim>\<open>"ab"\<close>). A first word of two characters is found (index 2 of
  \<^verbatim>\<open>"ab cd"\<close>).
\<close>

theorem previousWord_index_0_unread:
  "previousWord '' ab cd'' 3 = '' ab'' \<and>
   previousWord ''a b'' 2 = [] \<and>
   previousWord ''ab'' 1 = [] \<and>
   previousWord ''ab cd'' 2 = ''ab''"
  by code_simp

end
